theory Spec2Isabelle
  imports Main
begin

section \<open>Substitution expansion (\<open>list_substitutions\<close>, \<open>expand_with_substitutions\<close>)\<close>

text \<open>
  A Python \<open>str\<close> is a \<open>string\<close>: one \<open>char\<close> per code point, code points
  below 256. The substitution dictionary is a \<open>dict\<close> from \<open>str\<close> to \<open>str\<close>; the code
  looks it up with the one-character strings of the token only
  (\<open>c in substitutions\<close>, \<open>substitutions[c]\<close>).
\<close>

type_synonym substitutions = "string \<rightharpoonup> string"

text \<open>Iterating over a \<open>str\<close> yields its one-character strings.\<close>

definition iter_str :: "string \<Rightarrow> string list" where
  "iter_str s = map (\<lambda>c. [c]) s"

text \<open>
  \<open>itertools.product(*pools)\<close>: the tuples in lexicographic order, the rightmost pool
  advancing fastest; the product of no pool at all is the one empty tuple.
\<close>

fun itertools_product :: "'a list list \<Rightarrow> 'a list list" where
  "itertools_product [] = [[]]"
| "itertools_product (pool # pools) =
     concat (map (\<lambda>x. map ((#) x) (itertools_product pools)) pool)"

text \<open>\<open>"".join(sub)\<close> for a tuple of strings.\<close>

definition join_empty :: "string list \<Rightarrow> string" where
  "join_empty sub = concat sub"

text \<open>\<open>[substitutions[c] if c in substitutions else c for c in st]\<close>\<close>

definition sub_space :: "string \<Rightarrow> substitutions \<Rightarrow> string list" where
  "sub_space st substitutions =
     map (\<lambda>c. case substitutions [c] of Some v \<Rightarrow> v | None \<Rightarrow> [c]) st"

definition list_substitutions :: "string \<Rightarrow> substitutions \<Rightarrow> string list" where
  "list_substitutions st substitutions =
     map join_empty (itertools_product (map iter_str (sub_space st substitutions)))"

text \<open>
  \<open>expand_with_substitutions\<close> iterates over a set; \<open>codes\<close> is the list of the set's elements
  in the order the iteration visits them. The loop extends the accumulator
  \<open>extended_codes\<close> code by code.
\<close>

fun expand_loop :: "string list \<Rightarrow> substitutions \<Rightarrow> string list \<Rightarrow> string list" where
  "expand_loop [] substitutions extended_codes = extended_codes"
| "expand_loop (code # codes) substitutions extended_codes =
     expand_loop codes substitutions (extended_codes @ list_substitutions code substitutions)"

definition expand_with_substitutions :: "string list \<Rightarrow> substitutions \<Rightarrow> string list" where
  "expand_with_substitutions codes substitutions = expand_loop codes substitutions []"


section \<open>The regular expressions of the library (\<open>re.finditer\<close>)\<close>

text \<open>
  \<open>search_codes\<close> hands the composed pattern to \<open>re.finditer\<close> of the Python standard
  library (CPython 3.7 or later, \<open>str\<close> patterns, no flags). The model below covers a
  fragment of the pattern language: literals, \<open>.\<close>, the escapes \<open>\d \D \s \S \w \W\<close> and
  escaped punctuation, character sets with ranges and negation, capturing groups,
  alternation, and the greedy repetitions \<open>* + ? {m} {m,} {,n} {m,n}\<close> of an item that
  cannot match the empty string. A pattern that the library rejects yields
  \<open>Re_error\<close>; a pattern outside the fragment yields \<open>Unsupported\<close>, and nothing is
  said about what the library does with it.
\<close>

text \<open>
  The exceptions that \<open>search_codes\<close> can raise: the \<open>re.error\<close> of a malformed
  pattern; \<open>IndexError\<close> from \<open>match.group(1)\<close> when the pattern has no group;
  \<open>TypeError\<close> from iterating over a token that is \<open>None\<close>. \<open>Unsupported\<close> is not
  an exception: it marks a pattern that the model does not cover.
\<close>

datatype error = Re_error | Unsupported | IndexError | TypeError

text \<open>
  A compiled pattern. \<open>In negate items\<close> is a character set; \<open>Rep lo hi r\<close> is the
  greedy repetition of \<open>r\<close> at least \<open>lo\<close> and at most \<open>hi\<close> times (\<open>None\<close>: no upper
  bound); \<open>Grp n r\<close> is the capturing group number \<open>n\<close>.
\<close>

datatype category = Digit | Space | Word

datatype citem = CLit char | CRange char char | CCat category | CNotCat category

datatype rx =
    Eps
  | Lit char
  | Any
  | In bool "citem list"
  | Cat rx rx
  | Alt rx rx
  | Rep nat "nat option" rx
  | Grp nat rx

text \<open>
  The categories of the library on the code points below 256: \<open>\d\<close> is a decimal digit,
  \<open>\s\<close> is Unicode white space, \<open>\w\<close> is an alphanumeric character or the underscore
  (the letters, digits, superscript digits and vulgar fractions of Latin-1 included).
\<close>

definition code_point :: "char \<Rightarrow> nat" where
  "code_point c = of_char c"

definition is_digit :: "char \<Rightarrow> bool" where
  "is_digit c = (48 \<le> code_point c \<and> code_point c \<le> 57)"

definition is_ascii_letter :: "char \<Rightarrow> bool" where
  "is_ascii_letter c =
     ((65 \<le> code_point c \<and> code_point c \<le> 90) \<or> (97 \<le> code_point c \<and> code_point c \<le> 122))"

definition is_space :: "char \<Rightarrow> bool" where
  "is_space c =
     ((9 \<le> code_point c \<and> code_point c \<le> 13) \<or> (28 \<le> code_point c \<and> code_point c \<le> 32)
      \<or> code_point c = 133 \<or> code_point c = 160)"

definition is_alnum :: "char \<Rightarrow> bool" where
  "is_alnum c =
     (is_digit c \<or> is_ascii_letter c
      \<or> code_point c = 170 \<or> code_point c = 178 \<or> code_point c = 179 \<or> code_point c = 181
      \<or> code_point c = 185 \<or> code_point c = 186
      \<or> (188 \<le> code_point c \<and> code_point c \<le> 190)
      \<or> (192 \<le> code_point c \<and> code_point c \<le> 214)
      \<or> (216 \<le> code_point c \<and> code_point c \<le> 246)
      \<or> 248 \<le> code_point c)"

definition is_word :: "char \<Rightarrow> bool" where
  "is_word c = (is_alnum c \<or> c = CHR ''_'')"

fun in_category :: "category \<Rightarrow> char \<Rightarrow> bool" where
  "in_category Digit c = is_digit c"
| "in_category Space c = is_space c"
| "in_category Word c = is_word c"

fun in_item :: "char \<Rightarrow> citem \<Rightarrow> bool" where
  "in_item c (CLit x) = (c = x)"
| "in_item c (CRange lo hi) = (code_point lo \<le> code_point c \<and> code_point c \<le> code_point hi)"
| "in_item c (CCat k) = in_category k c"
| "in_item c (CNotCat k) = (\<not> in_category k c)"

definition in_set :: "bool \<Rightarrow> citem list \<Rightarrow> char \<Rightarrow> bool" where
  "in_set negate items c = (list_ex (in_item c) items \<noteq> negate)"

subsection \<open>Tokens\<close>

text \<open>
  The pattern is read token by token, as the library's parser does. A repetition token
  carries its bounds and whether a \<open>?\<close> or \<open>+\<close> follows it (a lazy or possessive
  repetition, which the model does not cover).
\<close>

datatype tok = TAtom rx | TOpen | TClose | TBar | TRep nat "nat option" bool

text \<open>
  An escape: \<open>\d \D \s \S \w \W\<close> are categories; a backslash before any character that
  is not an ASCII letter or digit stands for that character; the other escapes are not
  covered.
\<close>

definition category_escape :: "char \<Rightarrow> citem option" where
  "category_escape e =
     (if e = CHR ''d'' then Some (CCat Digit)
      else if e = CHR ''D'' then Some (CNotCat Digit)
      else if e = CHR ''s'' then Some (CCat Space)
      else if e = CHR ''S'' then Some (CNotCat Space)
      else if e = CHR ''w'' then Some (CCat Word)
      else if e = CHR ''W'' then Some (CNotCat Word)
      else None)"

definition class_escape :: "char \<Rightarrow> error + citem" where
  "class_escape e =
     (case category_escape e of
        Some k \<Rightarrow> Inr k
      | None \<Rightarrow> if is_digit e \<or> is_ascii_letter e then Inl Unsupported else Inr (CLit e))"

definition escape :: "char \<Rightarrow> error + rx" where
  "escape e =
     (case category_escape e of
        Some k \<Rightarrow> Inr (In False [k])
      | None \<Rightarrow> if is_digit e \<or> is_ascii_letter e then Inl Unsupported else Inr (Lit e))"

text \<open>
  One code inside a character set: a character or an escape. A set or a pattern that ends
  in the middle of one is malformed.
\<close>

fun class_code :: "string \<Rightarrow> error + (citem \<times> string)" where
  "class_code [] = Inl Re_error"
| "class_code (c # s) =
     (if c = CHR 0x5C then
        (case s of
           [] \<Rightarrow> Inl Re_error
         | e # s' \<Rightarrow> (case class_escape e of Inl err \<Rightarrow> Inl err | Inr k \<Rightarrow> Inr (k, s')))
      else Inr (CLit c, s))"

lemma class_code_shorter: "class_code s = Inr (k, s') \<Longrightarrow> length s' < length s"
  by (cases s) (auto split: if_splits list.splits sum.splits)

text \<open>
  The two ends of a range \<open>lo-hi\<close> are plain characters, in order; anything else is a bad
  character range.
\<close>

definition class_range :: "citem \<Rightarrow> citem \<Rightarrow> string \<Rightarrow> error + (citem list \<times> bool \<times> string)" where
  "class_range code1 code2 s =
     (case (code1, code2) of
        (CLit lo, CLit hi) \<Rightarrow>
          if code_point hi < code_point lo then Inl Re_error else Inr ([CRange lo hi], False, s)
      | _ \<Rightarrow> Inl Re_error)"

text \<open>What follows a \<open>-\<close> in a set: the end of the set, or the upper end of a range.\<close>

fun class_after_dash :: "citem \<Rightarrow> string \<Rightarrow> error + (citem list \<times> bool \<times> string)" where
  "class_after_dash code1 [] = Inl Re_error"
| "class_after_dash code1 (that # s) =
     (if that = CHR '']'' then Inr ([CLit CHR ''-'', code1], True, s)
      else
        (case class_code (that # s) of
           Inl err \<Rightarrow> Inl err
         | Inr (code2, s') \<Rightarrow> class_range code1 code2 s'))"

text \<open>
  One member of a character set: a single code, a range, or the final \<open>-]\<close>. The flag
  tells that the set ends with the member.
\<close>

definition class_member :: "string \<Rightarrow> error + (citem list \<times> bool \<times> string)" where
  "class_member s =
     (case class_code s of
        Inl err \<Rightarrow> Inl err
      | Inr (code1, s1) \<Rightarrow>
          (case s1 of
             [] \<Rightarrow> Inr ([code1], False, s1)
           | d # s2 \<Rightarrow>
               if d = CHR ''-'' then class_after_dash code1 s2 else Inr ([code1], False, s1)))"

lemma class_range_rest:
  "class_range code1 code2 s = Inr (new, fin, s') \<Longrightarrow>
     s' = s \<and> class_range code1 code2 r = Inr (new, fin, r)"
  by (auto simp: class_range_def split: citem.splits if_splits)

lemma class_after_dash_shorter:
  "class_after_dash code1 s = Inr (new, fin, s') \<Longrightarrow> length s' < length s"
proof (cases s)
  case Nil
  assume "class_after_dash code1 s = Inr (new, fin, s')"
  with Nil show ?thesis by simp
next
  case (Cons that s3)
  assume a: "class_after_dash code1 s = Inr (new, fin, s')"
  show ?thesis
  proof (cases "that = CHR '']''")
    case True
    with a Cons show ?thesis by auto
  next
    case False
    with a Cons obtain code2 s4 where c2: "class_code s = Inr (code2, s4)"
      and r: "class_range code1 code2 s4 = Inr (new, fin, s')"
      by (auto simp del: class_code.simps split: sum.splits)
    from class_code_shorter [OF c2] class_range_rest [OF r] show ?thesis by simp
  qed
qed

lemma class_member_shorter:
  assumes "class_member s = Inr (new, fin, s')"
  shows "length s' < length s"
proof -
  from assms obtain code1 s1 where c1: "class_code s = Inr (code1, s1)"
    by (auto simp: class_member_def split: sum.splits)
  then have l1: "length s1 < length s" by (rule class_code_shorter)
  show ?thesis
  proof (cases s1)
    case Nil
    with assms c1 l1 show ?thesis by (simp add: class_member_def)
  next
    case (Cons d s2)
    show ?thesis
    proof (cases "d = CHR ''-''")
      case False
      with assms c1 l1 Cons show ?thesis by (auto simp: class_member_def)
    next
      case True
      with assms c1 Cons have "class_after_dash code1 s2 = Inr (new, fin, s')"
        by (simp add: class_member_def)
      from class_after_dash_shorter [OF this] l1 Cons show ?thesis by simp
    qed
  qed
qed

text \<open>
  The members of a character set up to the closing bracket, which is a plain character
  when it comes first. \<open>acc\<close> holds the members read so far, the last one first.
\<close>

function class_items :: "string \<Rightarrow> citem list \<Rightarrow> error + (citem list \<times> string)" where
  "class_items s acc =
     (case s of
        [] \<Rightarrow> Inl Re_error
      | c # s0 \<Rightarrow>
          if c = CHR '']'' \<and> acc \<noteq> [] then Inr (rev acc, s0)
          else
            (case class_member s of
               Inl err \<Rightarrow> Inl err
             | Inr (new, fin, s') \<Rightarrow>
                 if fin then Inr (rev (new @ acc), s') else class_items s' (new @ acc)))"
  by pat_completeness auto
termination
  by (relation "measure (\<lambda>(s, acc). length s)")
     (auto dest!: class_member_shorter)

lemma class_items_shorter: "class_items s acc = Inr (items, s') \<Longrightarrow> length s' < length s"
proof (induction s acc rule: class_items.induct)
  case (1 s acc)
  show ?case
  proof (cases s)
    case Nil
    with "1.prems" show ?thesis by simp
  next
    case (Cons c s0)
    show ?thesis
    proof (cases "c = CHR '']'' \<and> acc \<noteq> []")
      case True
      with "1.prems" Cons show ?thesis by auto
    next
      case False
      with "1.prems" Cons obtain new fin s1 where m: "class_member s = Inr (new, fin, s1)"
        by (auto split: sum.splits)
      from class_member_shorter [OF m] have l: "length s1 < length s" .
      show ?thesis
      proof (cases fin)
        case True
        with "1.prems" Cons False m l show ?thesis by auto
      next
        case f: False
        with "1.prems" Cons False m have "class_items s1 (new @ acc) = Inr (items, s')"
          by auto
        with "1.IH" [OF Cons False m refl refl f] l show ?thesis by simp
      qed
    qed
  qed
qed

text \<open>
  A repetition \<open>{m}\<close>, \<open>{m,}\<close>, \<open>{,n}\<close> or \<open>{m,n}\<close>, read after its opening brace. The
  result is \<open>None\<close> when the brace does not open a repetition (it is then a plain
  character), among them the case \<open>{}\<close>. A bound of \<open>MAXREPEAT\<close> or more overflows in
  the library and is not covered; a lower bound above the upper bound is malformed.
\<close>

definition MAXREPEAT :: nat where
  "MAXREPEAT = 4294967295"

definition int_of_digits :: "string \<Rightarrow> nat" where
  "int_of_digits ds = foldl (\<lambda>n c. 10 * n + (code_point c - 48)) 0 ds"

definition parse_brace :: "string \<Rightarrow> (error + (nat \<times> nat option \<times> string)) option" where
  "parse_brace s =
     (if s \<noteq> [] \<and> hd s = CHR ''}'' then None
      else
        let lo = takeWhile is_digit s;
            s1 = dropWhile is_digit s;
            comma = (s1 \<noteq> [] \<and> hd s1 = CHR '','');
            hi = (if comma then takeWhile is_digit (tl s1) else lo);
            s2 = (if comma then dropWhile is_digit (tl s1) else s1)
        in if s2 \<noteq> [] \<and> hd s2 = CHR ''}'' then
             let mn = (if lo = [] then 0 else int_of_digits lo);
                 mx = (if hi = [] then None else Some (int_of_digits hi))
             in if MAXREPEAT \<le> mn \<or> (case mx of Some h \<Rightarrow> MAXREPEAT \<le> h | None \<Rightarrow> False)
                then Some (Inl Unsupported)
                else if (case mx of Some h \<Rightarrow> h < mn | None \<Rightarrow> False) then Some (Inl Re_error)
                else Some (Inr (mn, mx, tl s2))
           else None)"

lemma parse_brace_shorter: "parse_brace s = Some (Inr (lo, hi, s')) \<Longrightarrow> length s' \<le> length s"
proof -
  have d: "length (dropWhile is_digit xs) \<le> length xs" for xs
    by (simp add: length_dropWhile_le)
  assume "parse_brace s = Some (Inr (lo, hi, s'))"
  then show ?thesis
    using d [of s] d [of "tl (dropWhile is_digit s)"]
    by (auto simp: parse_brace_def Let_def split: if_splits)
qed

definition repeat_tok :: "nat \<Rightarrow> nat option \<Rightarrow> string \<Rightarrow> error + (tok \<times> string)" where
  "repeat_tok lo hi s =
     Inr (TRep lo hi (s \<noteq> [] \<and> (hd s = CHR ''?'' \<or> hd s = CHR ''+'')), s)"

text \<open>
  The next token of a non-empty pattern and the rest of the pattern. A group that opens
  with \<open>(?\<close> and the anchors \<open>^\<close> and \<open>$\<close> are not covered.
\<close>

fun next_tok :: "string \<Rightarrow> error + (tok \<times> string)" where
  "next_tok [] = Inl Re_error"
| "next_tok (c # s) =
     (if c = CHR 0x5C then
        (case s of
           [] \<Rightarrow> Inl Re_error
         | e # s' \<Rightarrow> (case escape e of Inl err \<Rightarrow> Inl err | Inr a \<Rightarrow> Inr (TAtom a, s')))
      else if c = CHR ''['' then
        (let negate = (s \<noteq> [] \<and> hd s = CHR ''^'')
         in case class_items (if negate then tl s else s) [] of
              Inl err \<Rightarrow> Inl err
            | Inr (items, s') \<Rightarrow> Inr (TAtom (In negate items), s'))
      else if c = CHR ''('' then
        (if s \<noteq> [] \<and> hd s = CHR ''?'' then Inl Unsupported else Inr (TOpen, s))
      else if c = CHR '')'' then Inr (TClose, s)
      else if c = CHR ''|'' then Inr (TBar, s)
      else if c = CHR ''.'' then Inr (TAtom Any, s)
      else if c = CHR ''^'' \<or> c = CHR ''$'' then Inl Unsupported
      else if c = CHR ''*'' then repeat_tok 0 None s
      else if c = CHR ''+'' then repeat_tok 1 None s
      else if c = CHR ''?'' then repeat_tok 0 (Some 1) s
      else if c = CHR ''{'' then
        (case parse_brace s of
           None \<Rightarrow> Inr (TAtom (Lit c), s)
         | Some (Inl err) \<Rightarrow> Inl err
         | Some (Inr (lo, hi, s')) \<Rightarrow> repeat_tok lo hi s')
      else Inr (TAtom (Lit c), s))"


lemma next_tok_shorter: "next_tok s = Inr (t, s') \<Longrightarrow> length s' < length s"
proof (cases s)
  case Nil
  assume "next_tok s = Inr (t, s')"
  with Nil show ?thesis by simp
next
  case (Cons c cs)
  assume "next_tok s = Inr (t, s')"
  with Cons show ?thesis
    by (auto simp: repeat_tok_def Let_def simp del: class_items.simps
        split: if_splits list.splits sum.splits option.splits prod.splits
        dest!: class_items_shorter parse_brace_shorter)
qed


subsection \<open>The parser\<close>

text \<open>
  The parser keeps a stack of open groups. A frame holds the number of its group, the
  alternatives completed so far and the items of the current alternative, the last one
  first in both lists. The state is the number of groups opened so far, the frame of the
  innermost open group and the frames of the enclosing ones; the outermost frame is the
  whole pattern.

  A repetition applies to the item before it: there must be one (else \<open>nothing to
  repeat\<close>), and it must not be a repetition itself (else \<open>multiple repeat\<close>). The model
  covers the repetition of an item that cannot match the empty string. A closing
  parenthesis without an open group is an \<open>unbalanced parenthesis\<close>.
\<close>

primrec nullable :: "rx \<Rightarrow> bool" where
  "nullable Eps = True"
| "nullable (Lit c) = False"
| "nullable Any = False"
| "nullable (In negate items) = False"
| "nullable (Cat a b) = (nullable a \<and> nullable b)"
| "nullable (Alt a b) = (nullable a \<or> nullable b)"
| "nullable (Rep lo hi r) = (lo = 0 \<or> nullable r)"
| "nullable (Grp n r) = nullable r"

fun is_repeat :: "rx \<Rightarrow> bool" where
  "is_repeat (Rep lo hi r) = True"
| "is_repeat r = False"

type_synonym frame = "nat \<times> rx list \<times> rx list"

type_synonym pstate = "nat \<times> frame \<times> frame list"

definition seq_rx :: "rx list \<Rightarrow> rx" where
  "seq_rx items = foldl (\<lambda>acc item. Cat item acc) Eps items"

definition close_frame :: "frame \<Rightarrow> rx" where
  "close_frame f =
     (case f of (gid, branches, items) \<Rightarrow> foldl (\<lambda>acc b. Alt b acc) (seq_rx items) branches)"

fun step :: "tok \<Rightarrow> pstate \<Rightarrow> error + pstate" where
  "step (TAtom a) (groups, (gid, branches, items), stack) =
     Inr (groups, (gid, branches, a # items), stack)"
| "step TOpen (groups, f, stack) =
     Inr (Suc groups, (Suc groups, [], []), f # stack)"
| "step TBar (groups, (gid, branches, items), stack) =
     Inr (groups, (gid, seq_rx items # branches, []), stack)"
| "step TClose (groups, f, []) = Inl Re_error"
| "step TClose (groups, f, (gid, branches, items) # stack) =
     Inr (groups, (gid, branches, Grp (fst f) (close_frame f) # items), stack)"
| "step (TRep lo hi suffix) (groups, (gid, branches, []), stack) = Inl Re_error"
| "step (TRep lo hi suffix) (groups, (gid, branches, item # items), stack) =
     (if is_repeat item then Inl Re_error
      else if suffix \<or> nullable item then Inl Unsupported
      else Inr (groups, (gid, branches, Rep lo hi item # items), stack))"

text \<open>
  The loop of the parser, and the compilation of a pattern: at the end of the pattern no
  group may be open (else \<open>missing ), unterminated subpattern\<close>).
\<close>

function parse_loop :: "string \<Rightarrow> pstate \<Rightarrow> error + pstate" where
  "parse_loop [] st = Inr st"
| "parse_loop (c # s) st =
     (case next_tok (c # s) of
        Inl err \<Rightarrow> Inl err
      | Inr (t, s') \<Rightarrow>
          (case step t st of
             Inl err \<Rightarrow> Inl err
           | Inr st' \<Rightarrow> parse_loop s' st'))"
  by pat_completeness auto
termination
  by (relation "measure (\<lambda>(s, st). length s)")
     (auto simp del: next_tok.simps dest!: next_tok_shorter)

record pattern =
  p_code :: rx
  p_groups :: nat

definition re_compile :: "string \<Rightarrow> error + pattern" where
  "re_compile p =
     (case parse_loop p (0, (0, [], []), []) of
        Inl err \<Rightarrow> Inl err
      | Inr (groups, f, stack) \<Rightarrow>
          if stack = [] then Inr \<lparr>p_code = close_frame f, p_groups = groups\<rparr>
          else Inl Re_error)"


subsection \<open>Matching\<close>

text \<open>
  Matching is backtracking. \<open>matches r (s, groups)\<close> lists the outcomes of matching \<open>r\<close>
  at the start of \<open>s\<close>, in the order in which the library's matcher tries them: each
  outcome is the rest of the text after the match and the groups set so far. Alternatives
  are tried from left to right; a repetition tries one more iteration before it tries to
  stop.
\<close>

type_synonym caps = "nat \<rightharpoonup> string"

type_synonym mstate = "string \<times> caps"

definition one_char :: "(char \<Rightarrow> bool) \<Rightarrow> mstate \<Rightarrow> mstate list" where
  "one_char P st =
     (case fst st of
        [] \<Rightarrow> []
      | x # xs \<Rightarrow> if P x then [(xs, snd st)] else [])"

primrec repeat_max :: "(mstate \<Rightarrow> mstate list) \<Rightarrow> nat \<Rightarrow> nat \<Rightarrow> mstate \<Rightarrow> mstate list" where
  "repeat_max body 0 lo st = (if lo = 0 then [st] else [])"
| "repeat_max body (Suc k) lo st =
     concat (map (repeat_max body k (lo - 1)) (body st)) @ (if lo = 0 then [st] else [])"

lemma repeat_max_numeral:
  "repeat_max body (numeral k) lo st =
     concat (map (repeat_max body (pred_numeral k) (lo - 1)) (body st)) @
     (if lo = 0 then [st] else [])"
  by (simp add: numeral_eq_Suc)

definition set_group :: "nat \<Rightarrow> mstate \<Rightarrow> mstate \<Rightarrow> mstate" where
  "set_group n st st' =
     (fst st', (snd st')(n \<mapsto> take (length (fst st) - length (fst st')) (fst st)))"

primrec matches :: "rx \<Rightarrow> mstate \<Rightarrow> mstate list" where
  "matches Eps st = [st]"
| "matches (Lit c) st = one_char (\<lambda>x. x = c) st"
| "matches Any st = one_char (\<lambda>x. x \<noteq> CHR 0x0A) st"
| "matches (In negate items) st = one_char (in_set negate items) st"
| "matches (Cat a b) st = concat (map (matches b) (matches a st))"
| "matches (Alt a b) st = matches a st @ matches b st"
| "matches (Rep lo hi r) st =
     repeat_max (matches r) (case hi of Some h \<Rightarrow> h | None \<Rightarrow> length (fst st)) lo st"
| "matches (Grp n r) st = map (set_group n st) (matches r st)"

lemma repeat_max_suffix:
  assumes body: "\<And>st st'. st' \<in> set (body st) \<Longrightarrow> \<exists>pre. fst st = pre @ fst st'"
  shows "st' \<in> set (repeat_max body k lo st) \<Longrightarrow> \<exists>pre. fst st = pre @ fst st'"
proof (induction k arbitrary: lo st)
  case 0
  then show ?case by (auto split: if_splits)
next
  case (Suc k)
  from Suc.prems consider
    (iter) st1 where "st1 \<in> set (body st)" "st' \<in> set (repeat_max body k (lo - 1) st1)"
    | (stop) "st' = st"
    by (auto split: if_splits)
  then show ?case
  proof cases
    case iter
    from body [OF iter(1)] obtain p1 where "fst st = p1 @ fst st1" by blast
    moreover from Suc.IH [OF iter(2)] obtain p2 where "fst st1 = p2 @ fst st'" by blast
    ultimately have "fst st = (p1 @ p2) @ fst st'" by simp
    then show ?thesis by blast
  next
    case stop
    then show ?thesis by simp
  qed
qed

lemma matches_suffix:
  "st' \<in> set (matches r st) \<Longrightarrow> \<exists>pre. fst st = pre @ fst st'"
proof (induction r arbitrary: st st')
  case (Cat a b)
  then obtain st1 where 1: "st1 \<in> set (matches a st)" and 2: "st' \<in> set (matches b st1)"
    by auto
  from Cat.IH(1) [OF 1] obtain p1 where "fst st = p1 @ fst st1" by blast
  moreover from Cat.IH(2) [OF 2] obtain p2 where "fst st1 = p2 @ fst st'" by blast
  ultimately have "fst st = (p1 @ p2) @ fst st'" by simp
  then show ?case by blast
next
  case (Rep lo hi r)
  from Rep.prems have
    "st' \<in> set (repeat_max (matches r) (case hi of Some h \<Rightarrow> h | None \<Rightarrow> length (fst st)) lo st)"
    by simp
  then show ?case
    by (rule repeat_max_suffix [of "matches r", rotated]) (rule Rep.IH)
next
  case (Grp n r)
  from Grp.prems obtain st1 where "st1 \<in> set (matches r st)" and "fst st' = fst st1"
    by (auto simp: set_group_def)
  with Grp.IH [of st1 st] show ?case by simp
qed (auto simp: one_char_def split: list.splits if_splits)

lemma matches_length: "st' \<in> set (matches r st) \<Longrightarrow> length (fst st') \<le> length (fst st)"
  using matches_suffix [of st' r st] by auto

text \<open>
  A match object: its span, its groups, and the number of groups of its pattern.
\<close>

record re_match =
  m_start :: nat
  m_end :: nat
  m_groups :: caps
  m_re_groups :: nat

text \<open>
  The match that starts at position \<open>p\<close>: the first outcome of the matcher there. With
  \<open>must_advance\<close>, set after an empty match, an empty match at \<open>p\<close> is not accepted.
\<close>

definition match_at :: "pattern \<Rightarrow> string \<Rightarrow> nat \<Rightarrow> bool \<Rightarrow> re_match option" where
  "match_at pat text p must_advance =
     (case filter (\<lambda>st'. \<not> (must_advance \<and> length (fst st') = length text - p))
             (matches (p_code pat) (drop p text, Map.empty)) of
        [] \<Rightarrow> None
      | st' # _ \<Rightarrow>
          Some \<lparr>m_start = p, m_end = length text - length (fst st'), m_groups = snd st',
                m_re_groups = p_groups pat\<rparr>)"

lemma match_at_span:
  assumes "match_at pat text p adv = Some m" and "p \<le> length text"
  shows "m_start m = p" and "p \<le> m_end m" and "m_end m \<le> length text"
    and "adv \<Longrightarrow> p < m_end m"
proof -
  let ?ok = "\<lambda>st'. \<not> (adv \<and> length (fst st') = length text - p)"
  from assms(1) obtain st' rest where
    f: "filter ?ok (matches (p_code pat) (drop p text, Map.empty)) = st' # rest"
    and m: "m = \<lparr>m_start = p, m_end = length text - length (fst st'), m_groups = snd st',
                m_re_groups = p_groups pat\<rparr>"
    by (auto simp: match_at_def split: list.splits)
  from f have "st' \<in> set (filter ?ok (matches (p_code pat) (drop p text, Map.empty)))"
    by simp
  then have in_m: "st' \<in> set (matches (p_code pat) (drop p text, Map.empty))" and ok: "?ok st'"
    by auto
  from matches_length [OF in_m] have le: "length (fst st') \<le> length text - p" by simp
  show "m_start m = p" by (simp add: m)
  show "p \<le> m_end m" using le assms(2) by (simp add: m)
  show "m_end m \<le> length text" by (simp add: m)
  show "p < m_end m" if adv using that ok le assms(2) by (simp add: m)
qed

lemma scan_decreases:
  assumes "match_at pat text p adv = Some m" and "p \<le> length text"
  shows "2 * (Suc (length text) - m_end m) + (if m_end m = m_start m then 0 else 1)
         < 2 * (Suc (length text) - p) + (if adv then 0 else 1)"
proof -
  note sp = match_at_span [OF assms]
  show ?thesis
  proof (cases "m_end m = p")
    case True
    with sp(4) have "\<not> adv" by auto
    with True sp(1) show ?thesis by simp
  next
    case False
    with sp(2) have "p < m_end m" by simp
    with sp(1,3) assms(2) show ?thesis by auto
  qed
qed

text \<open>
  The scanner behind \<open>re.finditer\<close>: the search starts where the last match ended and
  tries every position up to the end of the text; \<open>must_advance\<close> holds for the first
  position only.
\<close>

function scan :: "pattern \<Rightarrow> string \<Rightarrow> nat \<Rightarrow> bool \<Rightarrow> re_match list" where
  "scan pat text p must_advance =
     (if length text < p then []
      else
        (case match_at pat text p must_advance of
           None \<Rightarrow> if p < length text then scan pat text (Suc p) False else []
         | Some m \<Rightarrow> m # scan pat text (m_end m) (m_end m = m_start m)))"
  by pat_completeness auto
termination
  by (relation
      "measure (\<lambda>(pat, text, p, adv). 2 * (Suc (length text) - p) + (if adv then 0 else 1))")
     (auto simp: not_less dest: scan_decreases)

declare scan.simps [simp del]

definition re_finditer :: "string \<Rightarrow> string \<Rightarrow> error + re_match list" where
  "re_finditer pattern text =
     (case re_compile pattern of
        Inl err \<Rightarrow> Inl err
      | Inr pat \<Rightarrow> Inr (scan pat text 0 False))"


section \<open>The search (\<open>search_codes\<close>)\<close>

text \<open>
  The value of \<open>match.group(1)\<close>: a string, or \<open>None\<close> when group 1 took no part in the
  match. A pattern without a group 1 raises \<open>IndexError\<close>.
\<close>

type_synonym token = "string option"

definition match_group1 :: "re_match \<Rightarrow> error + token" where
  "match_group1 m = (if 1 \<le> m_re_groups m then Inr (m_groups m 1) else Inl IndexError)"

text \<open>\<open>match.group(1) for match in matches\<close>, in the order of the matches.\<close>

fun group_values :: "re_match list \<Rightarrow> error + token list" where
  "group_values [] = Inr []"
| "group_values (m # ms) =
     (case match_group1 m of
        Inl err \<Rightarrow> Inl err
      | Inr t \<Rightarrow>
          (case group_values ms of
             Inl err \<Rightarrow> Inl err
           | Inr ts \<Rightarrow> Inr (t # ts)))"

text \<open>
  The call \<open>expand_with_substitutions(tentative_codes[page], substitutions)\<close> on a set of
  tokens: \<open>list_substitutions\<close> iterates over each token (\<open>for c in st\<close>), which raises
  \<open>TypeError\<close> on \<open>None\<close>; the loop visits every token, so the call raises exactly when the
  set holds \<open>None\<close>.
\<close>

definition expand_tokens :: "token list \<Rightarrow> substitutions \<Rightarrow> error + string list" where
  "expand_tokens tokens substitutions =
     (case those tokens of
        None \<Rightarrow> Inl TypeError
      | Some codes \<Rightarrow> Inr (expand_with_substitutions codes substitutions))"

text \<open>
  Lines 163 and 164: the matches of the pattern in the text of the page, and the value of
  group 1 of each.
\<close>

definition page_tokens :: "string \<Rightarrow> string \<Rightarrow> error + token list" where
  "page_tokens search_pattern text =
     (case re_finditer search_pattern text of
        Inl err \<Rightarrow> Inl err
      | Inr ms \<Rightarrow> group_values ms)"

text \<open>
  Lines 164 to 166: the value of \<open>tentative_codes[page]\<close> when the intersection is taken;
  with a substitution map the entry is assigned a second time. Python does not fix the
  order in which the set built by the comprehension is iterated: the model takes the order
  of the first occurrences of its elements, and the outcome is the same for every other
  order (\<open>expand_tokens_order\<close> below).
\<close>

definition page_tentative :: "string \<Rightarrow> substitutions option \<Rightarrow> string \<Rightarrow> error + token set" where
  "page_tentative search_pattern substitutions text =
     (case page_tokens search_pattern text of
        Inl err \<Rightarrow> Inl err
      | Inr tokens \<Rightarrow>
          (case substitutions of
             None \<Rightarrow> Inr (set tokens)
           | Some subs \<Rightarrow>
               (case expand_tokens (remdups tokens) subs of
                  Inl err \<Rightarrow> Inl err
                | Inr extended_codes \<Rightarrow> Inr (Some ` set extended_codes))))"

record 'k search_state =
  tentative_codes :: "'k \<rightharpoonup> token set"
  codes_found :: "'k \<rightharpoonup> token set"

text \<open>The body of the loop for one page, with line 167.\<close>

definition search_page ::
  "string \<Rightarrow> string set \<Rightarrow> substitutions option \<Rightarrow> 'k \<Rightarrow> string \<Rightarrow> 'k search_state
     \<Rightarrow> error + 'k search_state" where
  "search_page search_pattern valid_codes substitutions page text st =
     (case page_tentative search_pattern substitutions text of
        Inl err \<Rightarrow> Inl err
      | Inr tentative \<Rightarrow>
          Inr \<lparr>tentative_codes = (tentative_codes st)(page \<mapsto> tentative),
               codes_found = (codes_found st)(page \<mapsto> tentative \<inter> Some ` valid_codes)\<rparr>)"

text \<open>
  \<open>for page in texts.keys()\<close>: the dictionary \<open>texts\<close> is the list of its items in
  insertion order, and \<open>texts[page]\<close> is the text of the item.
\<close>

fun search_loop ::
  "string \<Rightarrow> string set \<Rightarrow> substitutions option \<Rightarrow> ('k \<times> string) list \<Rightarrow> 'k search_state
     \<Rightarrow> error + 'k search_state" where
  "search_loop search_pattern valid_codes substitutions [] st = Inr st"
| "search_loop search_pattern valid_codes substitutions ((page, text) # texts) st =
     (case search_page search_pattern valid_codes substitutions page text st of
        Inl err \<Rightarrow> Inl err
      | Inr st' \<Rightarrow> search_loop search_pattern valid_codes substitutions texts st')"

datatype 'k search_result =
    Codes_found "'k \<rightharpoonup> token set"
  | Codes_found_and_tentative "'k \<rightharpoonup> token set" "'k \<rightharpoonup> token set"

definition search_codes ::
  "('k \<times> string) list \<Rightarrow> string set \<Rightarrow> string \<Rightarrow> string \<Rightarrow> bool \<Rightarrow> substitutions option
     \<Rightarrow> error + 'k search_result" where
  "search_codes texts valid_codes code_pattern code_header show_tentative substitutions =
     (let search_pattern = code_header @ ''('' @ code_pattern @ '')''
      in case search_loop search_pattern valid_codes substitutions texts
                \<lparr>tentative_codes = Map.empty, codes_found = Map.empty\<rparr> of
           Inl err \<Rightarrow> Inl err
         | Inr st \<Rightarrow>
             Inr (if show_tentative
                  then Codes_found_and_tentative (codes_found st) (tentative_codes st)
                  else Codes_found (codes_found st)))"


section \<open>Notions used in the statements and in the proofs\<close>


text \<open>
  A match object of the pattern in the text: the text from its end on, with its groups, is
  an outcome of matching the pattern at its start.
\<close>

definition is_match :: "pattern \<Rightarrow> string \<Rightarrow> re_match \<Rightarrow> bool" where
  "is_match pat tx m =
     (m_re_groups m = p_groups pat \<and>
      (drop (m_end m) tx, m_groups m)
        \<in> set (matches (p_code pat) (drop (m_start m) tx, Map.empty)))"

text \<open>The parentheses that \<open>search_codes\<close> puts around the code pattern.\<close>

definition boundary :: "char \<Rightarrow> bool" where
  "boundary c = (c = CHR ''('' \<or> c = CHR '')'')"

text \<open>
  The parser reads a piece of a pattern in the same way below enclosing groups, up to the
  numbers of the groups.
\<close>

primrec erase :: "rx \<Rightarrow> rx" where
  "erase Eps = Eps"
| "erase (Lit c) = Lit c"
| "erase Any = Any"
| "erase (In negate items) = In negate items"
| "erase (Cat a b) = Cat (erase a) (erase b)"
| "erase (Alt a b) = Alt (erase a) (erase b)"
| "erase (Rep lo hi r) = Rep lo hi (erase r)"
| "erase (Grp n r) = Grp 0 (erase r)"

definition sim_frame :: "frame \<Rightarrow> frame \<Rightarrow> bool" where
  "sim_frame f f' =
     (map erase (fst (snd f)) = map erase (fst (snd f')) \<and>
      map erase (snd (snd f)) = map erase (snd (snd f')))"

definition sim_state :: "frame list \<Rightarrow> pstate \<Rightarrow> pstate \<Rightarrow> bool" where
  "sim_state below st st' =
     (sim_frame (fst (snd st)) (fst (snd st')) \<and>
      (\<exists>stack'. snd (snd st') = stack' @ below \<and> list_all2 sim_frame (snd (snd st)) stack'))"


section \<open>Evaluation on concrete inputs\<close>

text \<open>The equations that evaluate the model on a concrete input.\<close>

definition backslash :: char where
  "backslash = CHR 0x5C"

lemmas search_eval =
  re_compile_def parse_brace_def repeat_tok_def Let_def class_member_def escape_def
  class_escape_def category_escape_def is_digit_def is_ascii_letter_def code_point_def
  MAXREPEAT_def int_of_digits_def close_frame_def seq_rx_def backslash_def class_range_def
  re_finditer_def scan.simps match_at_def one_char_def set_group_def in_set_def
  repeat_max_numeral is_space_def is_word_def is_alnum_def
  search_codes_def search_page_def page_tentative_def page_tokens_def match_group1_def
  expand_tokens_def expand_with_substitutions_def
  list_substitutions_def sub_space_def iter_str_def join_empty_def

text \<open>Scenario A of the specification.\<close>

definition scenario_text :: string where
  "scenario_text = ''REF: O0123''"

definition scenario_header :: string where
  "scenario_header = ''REF:'' @ [backslash] @ ''s*''"

definition scenario_code :: string where
  "scenario_code = ''[A-Z0-9]{5}''"

definition scenario_substitutions :: substitutions where
  "scenario_substitutions = [''O'' \<mapsto> ''O0'']"



lemmas scenario_defs =
  scenario_text_def scenario_header_def scenario_code_def scenario_substitutions_def

lemma scenario_search:
  "search_codes [(1::nat, scenario_text)] {''00123''} scenario_code scenario_header True
     (Some scenario_substitutions) =
   Inr (Codes_found_and_tentative [1 \<mapsto> {Some ''00123''}]
          [1 \<mapsto> {Some ''O0123'', Some ''00123''}])"
  by (simp add: scenario_defs search_eval)

lemma scenario_tokens:
  "page_tokens (scenario_header @ ''('' @ scenario_code @ '')'') scenario_text = Inr [Some ''O0123'']"
  by (simp add: scenario_defs search_eval)


text \<open>The patterns of \<open>load_test\<close> and the default patterns are patterns of the fragment.\<close>

lemma repository_patterns:
  "\<forall>p \<in> set [''R.f:'' @ backslash # ''s*'', backslash # ''d{5}'',
               ''REF.'' @ backslash # ''s'',
               ''[A-Z]{2,3}'' @ backslash # ''d{2}[A-Z]?'',
               ''r.f.'' @ backslash # ''s*'', ''[A-Z0-9]{4,5}'',
               backslash # ''w*'', ''''].
     \<exists>pat. re_compile p = Inr pat"
  by (simp add: search_eval)


section \<open>Properties of the expansion\<close>

lemma length_itertools_product:
  "length (itertools_product pools) = prod_list (map length pools)"
proof (induction pools)
  case Nil
  show ?case by simp
next
  case (Cons pool pools)
  have "length (concat (map (\<lambda>x. map ((#) x) (itertools_product pools)) pool))
        = length pool * length (itertools_product pools)"
    by (induction pool) simp_all
  with Cons show ?case by simp
qed

lemma in_itertools_product:
  "t \<in> set (itertools_product pools) \<longleftrightarrow>
     length t = length pools \<and> (\<forall>i < length pools. t ! i \<in> set (pools ! i))"
proof (induction pools arbitrary: t)
  case Nil
  show ?case by simp
next
  case (Cons pool pools)
  show ?case
  proof (cases t)
    case Nil
    then show ?thesis by auto
  next
    case (Cons x t')
    have "(\<forall>i < Suc (length pools). (x # t') ! i \<in> set ((pool # pools) ! i))
          \<longleftrightarrow> x \<in> set pool \<and> (\<forall>i < length pools. t' ! i \<in> set (pools ! i))"
      by (auto simp: nth_Cons split: nat.splits)
    with Cons Cons.IH [of t'] show ?thesis by auto
  qed
qed

lemma length_sub_space: "length (sub_space st substitutions) = length st"
  by (simp add: sub_space_def)

lemma concat_singletons:
  "\<forall>i < length t. length (t ! i) = 1 \<Longrightarrow>
     length (concat t) = length t \<and> (\<forall>i < length t. t ! i = [concat t ! i])"
proof (induction t)
  case Nil
  show ?case by simp
next
  case (Cons s t)
  from Cons.prems have s: "length s = 1" by auto
  then obtain c where sc: "s = [c]" by (cases s) auto
  from Cons.prems have "\<forall>i < length t. length (t ! i) = 1" by auto
  with Cons.IH have ih: "length (concat t) = length t"
    "\<forall>i < length t. t ! i = [concat t ! i]" by auto
  show ?case using sc ih by (auto simp: nth_Cons split: nat.splits)
qed

lemma expand_loop_append:
  "expand_loop codes substitutions acc =
     acc @ concat (map (\<lambda>code. list_substitutions code substitutions) codes)"
  by (induction codes arbitrary: acc) simp_all

lemma expand_with_substitutions_concat:
  "expand_with_substitutions codes substitutions =
     concat (map (\<lambda>code. list_substitutions code substitutions) codes)"
  by (simp add: expand_with_substitutions_def expand_loop_append)

lemma list_substitutions_elem:
  assumes "x \<in> set (list_substitutions st substitutions)"
  shows "length x = length st"
    and "\<forall>i < length st. case substitutions [st ! i] of
            None \<Rightarrow> x ! i = st ! i | Some v \<Rightarrow> x ! i \<in> set v"
proof -
  from assms obtain t where
    t: "t \<in> set (itertools_product (map iter_str (sub_space st substitutions)))"
    and x: "x = concat t"
    by (auto simp: list_substitutions_def join_empty_def)
  from t have len: "length t = length st"
    and pick: "\<forall>i < length st. t ! i \<in> set (iter_str (sub_space st substitutions ! i))"
    by (auto simp: in_itertools_product length_sub_space)
  have one: "\<forall>i < length t. length (t ! i) = 1"
    using pick len by (auto simp: iter_str_def)
  from concat_singletons [OF one] have cl: "length (concat t) = length t"
    and cn: "\<forall>i < length t. t ! i = [concat t ! i]" by auto
  show "length x = length st" using cl len x by simp
  show "\<forall>i < length st. case substitutions [st ! i] of
            None \<Rightarrow> x ! i = st ! i | Some v \<Rightarrow> x ! i \<in> set v"
  proof (intro allI impI)
    fix i assume i: "i < length st"
    with pick have "t ! i \<in> set (iter_str (sub_space st substitutions ! i))" by simp
    moreover from cn i len have "t ! i = [x ! i]" by (simp add: x)
    ultimately have "x ! i \<in> set (sub_space st substitutions ! i)"
      by (auto simp: iter_str_def)
    with i show "case substitutions [st ! i] of
            None \<Rightarrow> x ! i = st ! i | Some v \<Rightarrow> x ! i \<in> set v"
      by (simp add: sub_space_def split: option.splits)
  qed
qed


text \<open>
  C2. For every token and every substitution map, the number of candidates that
  \<open>list_substitutions\<close> produces is the product, over the character positions of the token,
  of 1 where the character is not a key of the map and of the length of the map's value for
  the character where it is.
\<close>

theorem C2_expansion_count:
  "length (list_substitutions st substitutions) =
     prod_list (map (\<lambda>c. case substitutions [c] of None \<Rightarrow> 1 | Some v \<Rightarrow> length v) st)"
proof -
  have "map length (map iter_str (sub_space st substitutions)) =
        map (\<lambda>c. case substitutions [c] of None \<Rightarrow> 1 | Some v \<Rightarrow> length v) st"
    by (simp add: sub_space_def iter_str_def split: option.splits)
  then show ?thesis
    by (simp add: list_substitutions_def length_itertools_product)
qed

theorem C2_expansion_count_witness:
  "length (list_substitutions ''O0123'' [''O'' \<mapsto> ''O0'', ''1'' \<mapsto> ''1Il'']) = 2 * 1 * 3 * 1 * 1"
  using C2_expansion_count [of "''O0123''" "[''O'' \<mapsto> ''O0'', ''1'' \<mapsto> ''1Il'']"]
  by simp


text \<open>
  C5. For every collection of tokens and every substitution map, the candidates of
  \<open>expand_with_substitutions\<close> are the union over the tokens of each token's own expansion;
  hence expanding a union of two collections gives the union of their expansions. No
  candidate mixes characters of two tokens.
\<close>

theorem C5_expand_is_union:
  "set (expand_with_substitutions codes substitutions) =
     (\<Union>code \<in> set codes. set (list_substitutions code substitutions))
   \<and> set (expand_with_substitutions (codes @ codes') substitutions) =
       set (expand_with_substitutions codes substitutions) \<union>
       set (expand_with_substitutions codes' substitutions)
   \<and> (set codes'' = set codes \<union> set codes' \<longrightarrow>
       set (expand_with_substitutions codes'' substitutions) =
         set (expand_with_substitutions codes substitutions) \<union>
         set (expand_with_substitutions codes' substitutions))"
  by (auto simp: expand_with_substitutions_concat)

theorem C5_expand_is_union_witness:
  "set (expand_with_substitutions [''O1'', ''ab''] [''O'' \<mapsto> ''O0'']) =
     set (list_substitutions ''O1'' [''O'' \<mapsto> ''O0'']) \<union>
     set (list_substitutions ''ab'' [''O'' \<mapsto> ''O0''])
   \<and> set (expand_with_substitutions [''O1'', ''ab''] [''O'' \<mapsto> ''O0'']) =
       {''O1'', ''01'', ''ab''}"
proof -
  have "set [''O1'', ''ab''] = set [''O1''] \<union> set [''ab'']" by auto
  with C5_expand_is_union [of "[''O1'']" "[''O'' \<mapsto> ''O0'']" "[''ab'']" "[''O1'', ''ab'']"]
  have "set (expand_with_substitutions [''O1'', ''ab''] [''O'' \<mapsto> ''O0'']) =
         set (expand_with_substitutions [''O1''] [''O'' \<mapsto> ''O0'']) \<union>
         set (expand_with_substitutions [''ab''] [''O'' \<mapsto> ''O0''])"
    by blast
  then show ?thesis
    by (auto simp: expand_with_substitutions_def list_substitutions_def sub_space_def
        iter_str_def join_empty_def)
qed


text \<open>
  C8. Every string that \<open>list_substitutions\<close> produces for a token has exactly the length of
  the token. At a position whose character is a key of the map it holds one character of the
  map's value for that character; at any other position it holds the token's own character.
\<close>

theorem C8_expansion_preserves_length:
  "x \<in> set (list_substitutions st substitutions) \<Longrightarrow>
     length x = length st \<and>
     (\<forall>i < length st. case substitutions [st ! i] of
         None \<Rightarrow> x ! i = st ! i | Some v \<Rightarrow> x ! i \<in> set v)"
  using list_substitutions_elem by blast

theorem C8_expansion_preserves_length_witness:
  "''01'' \<in> set (list_substitutions ''O1'' [''O'' \<mapsto> ''O0'']) \<and> length ''01'' = length ''O1''"
proof -
  have h: "''01'' \<in> set (list_substitutions ''O1'' [''O'' \<mapsto> ''O0''])"
    by (simp add: list_substitutions_def sub_space_def iter_str_def join_empty_def)
  from C8_expansion_preserves_length [OF h] h show ?thesis by simp
qed


text \<open>
  C10. If the substitution map sends a character that occurs in the token to the empty
  string, \<open>list_substitutions\<close> returns no candidate at all for the token: the token itself
  is not among the results.
\<close>

theorem C10_empty_alternative_kills_token:
  "c \<in> set st \<Longrightarrow> substitutions [c] = Some [] \<Longrightarrow> list_substitutions st substitutions = []"
proof -
  assume c: "c \<in> set st" and e: "substitutions [c] = Some []"
  have "prod_list (map (\<lambda>c. case substitutions [c] of None \<Rightarrow> 1 | Some v \<Rightarrow> length v) st) = 0"
    using c e by (force simp: prod_list_zero_iff image_iff)
  then have "length (list_substitutions st substitutions) = 0"
    using length_itertools_product [of "map iter_str (sub_space st substitutions)"]
    by (simp add: list_substitutions_def sub_space_def iter_str_def comp_def
        option.case_distrib [of length] cong: option.case_cong)
  then show ?thesis by simp
qed

theorem C10_empty_alternative_kills_token_witness:
  "CHR ''l'' \<in> set ''Al1'' \<and> [''l'' \<mapsto> ''''] ''l'' = Some [] \<and>
   list_substitutions ''Al1'' [''l'' \<mapsto> ''''] = []"
  using C10_empty_alternative_kills_token [of "CHR ''l''" "''Al1''" "[''l'' \<mapsto> '''']"]
  by simp


section \<open>Properties of the search\<close>

lemma page_tentative_error:
  "re_compile search_pattern = Inl err \<Longrightarrow> page_tentative search_pattern substitutions text = Inl err"
  by (simp add: page_tentative_def page_tokens_def re_finditer_def)

lemma search_page_Inr:
  "search_page search_pattern valid_codes substitutions page text st = Inr st' \<longleftrightarrow>
     (\<exists>tentative. page_tentative search_pattern substitutions text = Inr tentative \<and>
        st' = \<lparr>tentative_codes = (tentative_codes st)(page \<mapsto> tentative),
               codes_found = (codes_found st)(page \<mapsto> tentative \<inter> Some ` valid_codes)\<rparr>)"
  by (auto simp: search_page_def split: sum.splits)

lemma search_loop_dom:
  "search_loop search_pattern valid_codes substitutions texts st = Inr st' \<Longrightarrow>
     dom (tentative_codes st') = dom (tentative_codes st) \<union> fst ` set texts \<and>
     dom (codes_found st') = dom (codes_found st) \<union> fst ` set texts"
proof (induction texts arbitrary: st)
  case Nil
  then show ?case by simp
next
  case (Cons item texts)
  obtain page tx where item: "item = (page, tx)" by (cases item)
  from Cons.prems item obtain st1 where
    1: "search_page search_pattern valid_codes substitutions page tx st = Inr st1"
    and 2: "search_loop search_pattern valid_codes substitutions texts st1 = Inr st'"
    by (auto split: sum.splits)
  from 1 have "dom (tentative_codes st1) = insert page (dom (tentative_codes st))"
    and "dom (codes_found st1) = insert page (dom (codes_found st))"
    by (auto simp: search_page_Inr)
  with Cons.IH [OF 2] item show ?case by auto
qed

lemma search_loop_intersection:
  assumes "search_loop search_pattern valid_codes substitutions texts st = Inr st'"
    and "\<And>page. codes_found st page =
           map_option (\<lambda>tentative. tentative \<inter> Some ` valid_codes) (tentative_codes st page)"
  shows "codes_found st' page =
           map_option (\<lambda>tentative. tentative \<inter> Some ` valid_codes) (tentative_codes st' page)"
  using assms
proof (induction texts arbitrary: st)
  case Nil
  then show ?case by simp
next
  case (Cons item texts)
  obtain p tx where item: "item = (p, tx)" by (cases item)
  from Cons.prems(1) item obtain st1 where
    1: "search_page search_pattern valid_codes substitutions p tx st = Inr st1"
    and 2: "search_loop search_pattern valid_codes substitutions texts st1 = Inr st'"
    by (auto split: sum.splits)
  from 1 Cons.prems(2) have "\<And>page. codes_found st1 page =
      map_option (\<lambda>tentative. tentative \<inter> Some ` valid_codes) (tentative_codes st1 page)"
    by (auto simp: search_page_Inr)
  from Cons.IH [OF 2 this] show ?case .
qed

lemma search_loop_other_page:
  "search_loop search_pattern valid_codes substitutions texts st = Inr st' \<Longrightarrow>
     page \<notin> fst ` set texts \<Longrightarrow>
     tentative_codes st' page = tentative_codes st page \<and> codes_found st' page = codes_found st page"
proof (induction texts arbitrary: st)
  case Nil
  then show ?case by simp
next
  case (Cons item texts)
  obtain p tx where item: "item = (p, tx)" by (cases item)
  from Cons.prems(1) item obtain st1 where
    1: "search_page search_pattern valid_codes substitutions p tx st = Inr st1"
    and 2: "search_loop search_pattern valid_codes substitutions texts st1 = Inr st'"
    by (auto split: sum.splits)
  from Cons.prems(2) item have ne: "page \<noteq> p" and notin: "page \<notin> fst ` set texts" by auto
  from 1 ne have "tentative_codes st1 page = tentative_codes st page"
    and "codes_found st1 page = codes_found st page"
    by (auto simp: search_page_Inr)
  with Cons.IH [OF 2 notin] show ?case by simp
qed

lemma search_loop_page:
  "search_loop search_pattern valid_codes substitutions texts st = Inr st' \<Longrightarrow>
     distinct (map fst texts) \<Longrightarrow> (page, text) \<in> set texts \<Longrightarrow>
     \<exists>tentative. page_tentative search_pattern substitutions text = Inr tentative \<and>
        tentative_codes st' page = Some tentative"
proof (induction texts arbitrary: st)
  case Nil
  then show ?case by simp
next
  case (Cons item texts)
  obtain p t where item: "item = (p, t)" by (cases item)
  from Cons.prems(1) item obtain st1 where
    1: "search_page search_pattern valid_codes substitutions p t st = Inr st1"
    and 2: "search_loop search_pattern valid_codes substitutions texts st1 = Inr st'"
    by (auto split: sum.splits)
  from Cons.prems(2) item have d: "distinct (map fst texts)" and pn: "p \<notin> fst ` set texts"
    by auto
  show ?case
  proof (cases "(page, text) = (p, t)")
    case True
    from 1 obtain tentative where
      "page_tentative search_pattern substitutions t = Inr tentative"
      "tentative_codes st1 p = Some tentative"
      by (auto simp: search_page_Inr)
    with search_loop_other_page [OF 2 pn] True show ?thesis by auto
  next
    case False
    with Cons.prems(3) item have "(page, text) \<in> set texts" by auto
    from Cons.IH [OF 2 d this] show ?thesis .
  qed
qed

lemma search_loop_error:
  "re_compile search_pattern = Inl err \<Longrightarrow> texts \<noteq> [] \<Longrightarrow>
     search_loop search_pattern valid_codes substitutions texts st = Inl err"
  by (cases texts) (auto simp: search_page_def page_tentative_error)

lemma search_codes_Inr:
  "search_codes texts valid_codes code_pattern code_header show_tentative substitutions = Inr r \<longleftrightarrow>
     (\<exists>st. search_loop (code_header @ ''('' @ code_pattern @ '')'') valid_codes substitutions texts
              \<lparr>tentative_codes = Map.empty, codes_found = Map.empty\<rparr> = Inr st \<and>
           r = (if show_tentative
                then Codes_found_and_tentative (codes_found st) (tentative_codes st)
                else Codes_found (codes_found st)))"
  by (auto simp: search_codes_def Let_def split: sum.splits)

lemma those_eq_Some: "those xs = Some ys \<longleftrightarrow> xs = map Some ys"
  by (induction xs arbitrary: ys) (auto split: option.splits)

lemma those_eq_None: "those xs = None \<longleftrightarrow> None \<in> set xs"
  by (induction xs) (auto split: option.splits)

text \<open>
  The order in which the set of tokens is iterated does not matter: neither for the error
  nor for the set of the candidates.
\<close>

lemma expand_tokens_order:
  assumes "set tokens = set tokens'"
  shows "map_sum id set (expand_tokens tokens substitutions) =
         map_sum id set (expand_tokens tokens' substitutions)"
proof (cases "None \<in> set tokens")
  case True
  with assms have "those tokens = None" "those tokens' = None"
    by (simp_all add: those_eq_None)
  then show ?thesis by (simp add: expand_tokens_def)
next
  case False
  with assms have "those tokens \<noteq> None" "those tokens' \<noteq> None"
    by (simp_all add: those_eq_None)
  then obtain codes codes' where c: "tokens = map Some codes" "tokens' = map Some codes'"
    by (auto simp: those_eq_Some)
  with assms have "Some ` set codes = Some ` set codes'" by simp
  then have "set codes = set codes'" by (simp add: inj_image_eq_iff)
  moreover from c have "those tokens = Some codes" "those tokens' = Some codes'"
    by (simp_all add: those_eq_Some)
  ultimately show ?thesis
    by (simp add: expand_tokens_def expand_with_substitutions_concat)
qed

text \<open>
  C1. Validation is exact set intersection. For every run of \<open>search_codes\<close> that returns,
  the codes found for a page are the intersection of the page's tentative set with the
  catalog: a string is among the codes found if and only if it is in the tentative set and
  in the catalog, compared as it stands (no normalisation); the codes returned without
  \<open>show_tentative\<close> are the same.
\<close>

theorem C1_validation_is_intersection:
  assumes "search_codes texts valid_codes code_pattern code_header True substitutions =
             Inr (Codes_found_and_tentative found tentative)"
  shows "search_codes texts valid_codes code_pattern code_header False substitutions =
           Inr (Codes_found found)
         \<and> found page = map_option (\<lambda>X. X \<inter> Some ` valid_codes) (tentative page)
         \<and> (\<forall>X. tentative page = Some X \<longrightarrow>
               (\<exists>F. found page = Some F \<and> None \<notin> F \<and>
                    (\<forall>s. Some s \<in> F \<longleftrightarrow> Some s \<in> X \<and> s \<in> valid_codes)))"
proof -
  from assms obtain st where
    loop: "search_loop (code_header @ ''('' @ code_pattern @ '')'') valid_codes substitutions texts
             \<lparr>tentative_codes = Map.empty, codes_found = Map.empty\<rparr> = Inr st"
    and f: "found = codes_found st" and t: "tentative = tentative_codes st"
    by (auto simp: search_codes_Inr)
  have inter: "found page = map_option (\<lambda>X. X \<inter> Some ` valid_codes) (tentative page)"
    unfolding f t by (rule search_loop_intersection [OF loop]) simp
  have "search_codes texts valid_codes code_pattern code_header False substitutions =
          Inr (Codes_found found)"
    using loop f by (simp add: search_codes_Inr)
  moreover have "\<exists>F. found page = Some F \<and> None \<notin> F \<and>
      (\<forall>s. Some s \<in> F \<longleftrightarrow> Some s \<in> X \<and> s \<in> valid_codes)"
    if "tentative page = Some X" for X
    using inter that by auto
  ultimately show ?thesis using inter by blast
qed

theorem C1_validation_is_intersection_witness:
  "search_codes [(1::nat, scenario_text)] {''00123''} scenario_code scenario_header False
     (Some scenario_substitutions) = Inr (Codes_found [1 \<mapsto> {Some ''00123''}])
   \<and> [(1::nat) \<mapsto> {Some ''00123''}] 1 =
       map_option (\<lambda>X. X \<inter> Some ` {''00123''}) ([1 \<mapsto> {Some ''O0123'', Some ''00123''}] 1)"
  using C1_validation_is_intersection [OF scenario_search, of 1] by simp

text \<open>
  C3, as stated: with a substitution map, the tentative set recorded for a page is the set
  of the raw pattern matches. In scenario A the raw matches are \<open>{"O0123"}\<close>, and the
  tentative set returned is \<open>{"O0123", "00123"}\<close>.
\<close>

theorem C3_tentative_is_pre_expansion_counterexample:
  "search_codes [(1::nat, scenario_text)] {''00123''} scenario_code scenario_header True
     (Some scenario_substitutions) =
   Inr (Codes_found_and_tentative [1 \<mapsto> {Some ''00123''}]
          [1 \<mapsto> {Some ''O0123'', Some ''00123''}])
   \<and> page_tokens (scenario_header @ ''('' @ scenario_code @ '')'') scenario_text
       = Inr [Some ''O0123'']
   \<and> [(1::nat) \<mapsto> {Some ''O0123'', Some ''00123''}] 1 \<noteq> Some (set [Some ''O0123''])"
  using scenario_search scenario_tokens by simp

text \<open>
  C3, amended. With a substitution map, the tentative set recorded for a page of a
  dictionary is the expanded set: the union, over the raw pattern matches of the page, of
  the expansion of each match.
\<close>

theorem C3_tentative_is_post_expansion:
  assumes "search_codes texts valid_codes code_pattern code_header True (Some subs) =
             Inr (Codes_found_and_tentative found tentative)"
    and "distinct (map fst texts)"
    and "(page, text) \<in> set texts"
  shows "\<exists>codes. page_tokens (code_header @ ''('' @ code_pattern @ '')'') text = Inr (map Some codes)
           \<and> tentative page = Some (Some ` (\<Union>code \<in> set codes. set (list_substitutions code subs)))"
proof -
  let ?pat = "code_header @ ''('' @ code_pattern @ '')''"
  from assms(1) obtain st where
    loop: "search_loop ?pat valid_codes (Some subs) texts
             \<lparr>tentative_codes = Map.empty, codes_found = Map.empty\<rparr> = Inr st"
    and t: "tentative = tentative_codes st"
    by (auto simp: search_codes_Inr)
  from search_loop_page [OF loop assms(2,3)] obtain T where
    pt: "page_tentative ?pat (Some subs) text = Inr T" and tp: "tentative page = Some T"
    by (auto simp: t)
  from pt obtain tokens codes where tok: "page_tokens ?pat text = Inr tokens"
    and th: "those (remdups tokens) = Some codes"
    and T: "T = Some ` set (expand_with_substitutions codes subs)"
    by (auto simp: page_tentative_def expand_tokens_def split: sum.splits option.splits)
  from th have rd: "remdups tokens = map Some codes" by (simp add: those_eq_Some)
  then have "set (remdups tokens) = Some ` set codes" by simp
  then have st: "set tokens = Some ` set codes" by simp
  then have "None \<notin> set tokens" by auto
  then have "those tokens \<noteq> None" by (simp add: those_eq_None)
  then obtain codes' where c': "tokens = map Some codes'"
    by (auto simp: those_eq_Some)
  with st have "Some ` set codes' = Some ` set codes" by simp
  then have "set codes' = set codes" by (simp add: inj_image_eq_iff)
  with T have "T = Some ` (\<Union>code \<in> set codes'. set (list_substitutions code subs))"
    by (simp add: expand_with_substitutions_concat)
  with tok c' tp show ?thesis by blast
qed

theorem C3_tentative_is_post_expansion_witness:
  "distinct (map fst [(1::nat, scenario_text)]) \<and>
   (1, scenario_text) \<in> set [(1::nat, scenario_text)] \<and>
   (\<exists>codes. page_tokens (scenario_header @ ''('' @ scenario_code @ '')'') scenario_text
               = Inr (map Some codes)
            \<and> [(1::nat) \<mapsto> {Some ''O0123'', Some ''00123''}] 1 =
                Some (Some ` (\<Union>code \<in> set codes.
                                set (list_substitutions code scenario_substitutions))))"
proof -
  have d: "distinct (map fst [(1::nat, scenario_text)])" by simp
  have m: "(1, scenario_text) \<in> set [(1::nat, scenario_text)]" by simp
  from C3_tentative_is_post_expansion [OF scenario_search d m] d m show ?thesis by simp
qed

text \<open>
  C4. Scenario A: for the page text \<open>REF: O0123\<close>, the header pattern \<open>REF:\s*\<close>, the code
  pattern \<open>[A-Z0-9]{5}\<close>, the substitution map \<open>{"O": "O0"}\<close> and the catalog
  \<open>{"00123"}\<close>, the pattern matches give the tentative set \<open>{"O0123"}\<close>, the expansion of
  that set is \<open>{"O0123", "00123"}\<close>, and the codes found are \<open>{"00123"}\<close>.
\<close>

theorem C4_scenario_A:
  "map_sum id set (page_tokens (scenario_header @ ''('' @ scenario_code @ '')'') scenario_text)
     = Inr {Some ''O0123''}
   \<and> set (expand_with_substitutions [''O0123''] scenario_substitutions) = {''O0123'', ''00123''}
   \<and> search_codes [(page, scenario_text)] {''00123''} scenario_code scenario_header False
        (Some scenario_substitutions) = Inr (Codes_found [page \<mapsto> {Some ''00123''}])
   \<and> search_codes [(page, scenario_text)] {''00123''} scenario_code scenario_header True
        (Some scenario_substitutions) =
       Inr (Codes_found_and_tentative [page \<mapsto> {Some ''00123''}]
              [page \<mapsto> {Some ''O0123'', Some ''00123''}])"
  by (simp add: scenario_defs search_eval)

theorem C4_scenario_A_witness:
  "search_codes [(7::nat, scenario_text)] {''00123''} scenario_code scenario_header False
        (Some scenario_substitutions) = Inr (Codes_found [7 \<mapsto> {Some ''00123''}])"
  using C4_scenario_A [of "7::nat"] by simp

text \<open>
  C6, as stated: a malformed header or code pattern raises an error before any page is
  scanned, also when there is no page. With the empty header and the malformed code pattern
  \<open>(\<close> the composed pattern is malformed (its second group is never closed), yet a search
  over no page raises nothing and returns the empty result. And the malformed header \<open>(\<close>
  and the malformed code pattern \<open>a)\<close> compose to the valid pattern \<open>((a))\<close>, with which
  a search over a page returns.
\<close>

theorem C6_fail_fast_counterexample:
  "re_compile ('''' @ ''('' @ ''('' @ '')'') = Inl Re_error
   \<and> search_codes ([] :: (nat \<times> string) list) {''00123''} ''('' '''' True None =
       Inr (Codes_found_and_tentative Map.empty Map.empty)
   \<and> re_compile ''('' = Inl Re_error \<and> re_compile ''a)'' = Inl Re_error
   \<and> search_codes [(1::nat, ''xa'')] {''a''} ''a)'' ''('' True None =
       Inr (Codes_found_and_tentative [1 \<mapsto> {Some ''a''}] [1 \<mapsto> {Some ''a''}])"
  by (simp add: search_eval)

text \<open>
  C6, amended. When the composed pattern, header then \<open>(\<close> then code pattern then \<open>)\<close>, is
  not a valid regular expression, \<open>search_codes\<close> raises the error of the library at the
  first page, whatever the text of that page, and returns no result; with no page at all it
  raises nothing and returns the empty result.
\<close>

theorem C6_error_at_first_page:
  assumes "re_compile (code_header @ ''('' @ code_pattern @ '')'') = Inl Re_error"
  shows "search_codes texts valid_codes code_pattern code_header show_tentative substitutions =
           (if texts = []
            then Inr (if show_tentative then Codes_found_and_tentative Map.empty Map.empty
                      else Codes_found Map.empty)
            else Inl Re_error)"
proof (cases "texts = []")
  case True
  then show ?thesis by (simp add: search_codes_def)
next
  case False
  from search_loop_error [OF assms False] False show ?thesis
    by (simp add: search_codes_def)
qed

theorem C6_error_at_first_page_witness:
  "re_compile ('''' @ ''('' @ ''[A-Z'' @ '')'') = Inl Re_error
   \<and> search_codes [(1::nat, ''REF: AB12'')] {''AB12''} ''[A-Z'' '''' False None = Inl Re_error
   \<and> search_codes ([] :: (nat \<times> string) list) {''AB12''} ''[A-Z'' '''' False None =
       Inr (Codes_found Map.empty)"
proof -
  have h: "re_compile ('''' @ ''('' @ ''[A-Z'' @ '')'') = Inl Re_error"
    by (simp add: search_eval)
  from C6_error_at_first_page [OF h, of "[(1::nat, ''REF: AB12'')]" "{''AB12''}" False None]
    C6_error_at_first_page [OF h, of "[] :: (nat \<times> string) list" "{''AB12''}" False None] h
  show ?thesis by simp
qed


section \<open>Well-formed pieces compose to a well-formed pattern\<close>

text \<open>
  Reading a piece of a pattern is not disturbed by a parenthesis that follows the piece.
\<close>

lemma class_code_append:
  "class_code s = Inr (k, s') \<Longrightarrow> class_code (s @ r) = Inr (k, s' @ r)"
  by (cases s) (auto split: if_splits list.splits sum.splits)

lemma class_after_dash_append:
  assumes "class_after_dash code1 s = Inr (new, fin, s')"
  shows "class_after_dash code1 (s @ r) = Inr (new, fin, s' @ r)"
proof (cases s)
  case Nil
  with assms show ?thesis by simp
next
  case (Cons that s3)
  show ?thesis
  proof (cases "that = CHR '']''")
    case True
    with assms Cons show ?thesis by auto
  next
    case False
    with assms Cons obtain code2 s4 where c2: "class_code s = Inr (code2, s4)"
      and rg: "class_range code1 code2 s4 = Inr (new, fin, s')"
      by (auto simp del: class_code.simps split: sum.splits)
    from class_range_rest [OF rg, of "s4 @ r"]
    have "s' = s4" and "class_range code1 code2 (s4 @ r) = Inr (new, fin, s4 @ r)" by auto
    with class_code_append [OF c2, of r] Cons False show ?thesis
      by (simp del: class_code.simps)
  qed
qed

lemma class_member_append:
  assumes "class_member s = Inr (new, fin, s')" and "c \<noteq> CHR ''-''"
  shows "class_member (s @ c # rest) = Inr (new, fin, s' @ c # rest)"
proof -
  let ?r = "c # rest"
  from assms(1) obtain code1 s1 where c1: "class_code s = Inr (code1, s1)"
    by (auto simp: class_member_def split: sum.splits)
  note a1 = class_code_append [OF c1, of ?r]
  show ?thesis
  proof (cases s1)
    case Nil
    with assms c1 a1 show ?thesis by (simp add: class_member_def)
  next
    case (Cons d s2)
    show ?thesis
    proof (cases "d = CHR ''-''")
      case False
      with assms c1 Cons have "new = [code1]" "fin = False" "s' = d # s2"
        by (auto simp: class_member_def)
      with False show ?thesis
        unfolding class_member_def a1 Cons by simp
    next
      case True
      with assms c1 Cons have "class_after_dash code1 s2 = Inr (new, fin, s')"
        by (simp add: class_member_def)
      from class_after_dash_append [OF this, of ?r] True show ?thesis
        unfolding class_member_def a1 Cons by simp
    qed
  qed
qed

lemma class_items_unfold:
  "class_items (c0 # s0) acc =
     (if c0 = CHR '']'' \<and> acc \<noteq> [] then Inr (rev acc, s0)
      else
        (case class_member (c0 # s0) of
           Inl err \<Rightarrow> Inl err
         | Inr (new, fin, s') \<Rightarrow>
             if fin then Inr (rev (new @ acc), s') else class_items s' (new @ acc)))"
  by (subst class_items.simps) simp

lemma class_items_append:
  "class_items s acc = Inr (items, s') \<Longrightarrow> c \<noteq> CHR ''-'' \<Longrightarrow>
     class_items (s @ c # rest) acc = Inr (items, s' @ c # rest)"
proof (induction s acc rule: class_items.induct)
  case (1 s acc)
  show ?case
  proof (cases s)
    case Nil
    with "1.prems" show ?thesis by simp
  next
    case (Cons c0 s0)
    note unf = class_items_unfold
    show ?thesis
    proof (cases "c0 = CHR '']'' \<and> acc \<noteq> []")
      case True
      with "1.prems" Cons show ?thesis by (simp add: unf del: class_items.simps)
    next
      case False
      with "1.prems" Cons obtain new fin s1 where m: "class_member s = Inr (new, fin, s1)"
        by (auto simp: unf simp del: class_items.simps split: sum.splits)
      note ma = class_member_append [OF m "1.prems"(2), of rest]
      show ?thesis
      proof (cases fin)
        case True
        with "1.prems" Cons False m ma show ?thesis
          by (auto simp: unf simp del: class_items.simps)
      next
        case f: False
        with "1.prems" Cons False m have "class_items s1 (new @ acc) = Inr (items, s')"
          by (simp add: unf del: class_items.simps)
        from "1.IH" [OF Cons False m refl refl f this "1.prems"(2)]
        have "class_items (s1 @ c # rest) (new @ acc) = Inr (items, s' @ c # rest)" .
        with Cons False m ma f show ?thesis
          by (auto simp: unf simp del: class_items.simps)
      qed
    qed
  qed
qed

lemma takeWhile_append_stop:
  "\<not> P c \<Longrightarrow> takeWhile P (xs @ c # rest) = takeWhile P xs"
  by (induction xs) auto

lemma dropWhile_append_stop:
  "\<not> P c \<Longrightarrow> dropWhile P (xs @ c # rest) = dropWhile P xs @ c # rest"
  by (induction xs) auto

lemma boundary_simps:
  "boundary c \<Longrightarrow> \<not> is_digit c" "boundary c \<Longrightarrow> c \<noteq> CHR '',''" "boundary c \<Longrightarrow> c \<noteq> CHR ''}''"
  "boundary c \<Longrightarrow> c \<noteq> CHR ''?''" "boundary c \<Longrightarrow> c \<noteq> CHR ''+''" "boundary c \<Longrightarrow> c \<noteq> CHR ''-''"
  "boundary c \<Longrightarrow> c \<noteq> CHR ''^''"
  by (auto simp: boundary_def is_digit_def code_point_def)

lemma starts_append:
  "c \<noteq> x \<Longrightarrow> (xs @ c # rest \<noteq> [] \<and> hd (xs @ c # rest) = x) = (xs \<noteq> [] \<and> hd xs = x)"
  by (cases xs) auto

lemma parse_brace_append:
  assumes "boundary c"
  shows "parse_brace (s @ c # rest) =
     (case parse_brace s of
        None \<Rightarrow> None
      | Some (Inl err) \<Rightarrow> Some (Inl err)
      | Some (Inr (lo, hi, s')) \<Rightarrow> Some (Inr (lo, hi, s' @ c # rest)))"
proof -
  note b = boundary_simps [OF assms]
  let ?r = "c # rest"
  have tw: "takeWhile is_digit (xs @ ?r) = takeWhile is_digit xs" for xs
    by (rule takeWhile_append_stop) (rule b)
  have dw: "dropWhile is_digit (xs @ ?r) = dropWhile is_digit xs @ ?r" for xs
    by (rule dropWhile_append_stop) (rule b)
  define s1 where "s1 = dropWhile is_digit s"
  define lo where "lo = takeWhile is_digit s"
  define comma where "comma = (s1 \<noteq> [] \<and> hd s1 = CHR '','')"
  define hi where "hi = (if comma then takeWhile is_digit (tl s1) else lo)"
  define s2 where "s2 = (if comma then dropWhile is_digit (tl s1) else s1)"
  define finish where "finish = (\<lambda>s2 :: string.
     let mn = (if lo = [] then 0 else int_of_digits lo);
         mx = (if hi = [] then None else Some (int_of_digits hi))
     in if MAXREPEAT \<le> mn \<or> (case mx of Some h \<Rightarrow> MAXREPEAT \<le> h | None \<Rightarrow> False)
        then Some (Inl Unsupported)
        else if (case mx of Some h \<Rightarrow> h < mn | None \<Rightarrow> False) then Some (Inl Re_error)
        else Some (Inr (mn, mx, tl s2)))"
  have orig: "parse_brace s =
      (if s \<noteq> [] \<and> hd s = CHR ''}'' then None
       else if s2 \<noteq> [] \<and> hd s2 = CHR ''}'' then finish s2 else None)"
    by (simp add: parse_brace_def Let_def s1_def lo_def comma_def hi_def s2_def finish_def)
  have comma': "(s1 @ ?r \<noteq> [] \<and> hd (s1 @ ?r) = CHR '','') = comma"
    unfolding comma_def by (rule starts_append) (rule b)
  have tl1: "comma \<Longrightarrow> tl (s1 @ ?r) = tl s1 @ ?r"
    by (cases s1) (auto simp: comma_def)
  have hi': "(if comma then takeWhile is_digit (tl (s1 @ ?r)) else lo) = hi"
    by (simp add: hi_def tl1 tw)
  have s2': "(if comma then dropWhile is_digit (tl (s1 @ ?r)) else s1 @ ?r) = s2 @ ?r"
    by (simp add: s2_def tl1 dw)
  have app: "parse_brace (s @ ?r) =
      (if s \<noteq> [] \<and> hd s = CHR ''}'' then None
       else if s2 \<noteq> [] \<and> hd s2 = CHR ''}'' then finish (s2 @ ?r) else None)"
    unfolding parse_brace_def Let_def tw dw starts_append [OF b(3)]
      s1_def [symmetric] lo_def [symmetric] comma' hi' s2'
    by (simp add: finish_def Let_def)
  have fin: "s2 \<noteq> [] \<Longrightarrow> finish (s2 @ ?r) =
      (case finish s2 of
        None \<Rightarrow> None
      | Some (Inl err) \<Rightarrow> Some (Inl err)
      | Some (Inr (lo, hi, s')) \<Rightarrow> Some (Inr (lo, hi, s' @ ?r)))"
    by (cases s2) (auto simp: finish_def Let_def)
  show ?thesis
    unfolding orig app by (simp add: fin)
qed


lemma repeat_tok_append:
  assumes "boundary c"
  shows "repeat_tok lo hi (s @ c # rest) =
     (case repeat_tok lo hi s of
        Inl err \<Rightarrow> Inl err
      | Inr (t, s') \<Rightarrow> Inr (t, s' @ c # rest))"
proof -
  note b = boundary_simps [OF assms]
  have "(s @ c # rest \<noteq> [] \<and> (hd (s @ c # rest) = CHR ''?'' \<or> hd (s @ c # rest) = CHR ''+''))
        = (s \<noteq> [] \<and> (hd s = CHR ''?'' \<or> hd s = CHR ''+''))"
    using b by (cases s) auto
  then show ?thesis by (simp add: repeat_tok_def)
qed

lemma next_tok_set_append:
  assumes "next_tok (CHR ''['' # s) = Inr (t, s')" and "boundary c"
  shows "next_tok (CHR ''['' # s @ c # rest) = Inr (t, s' @ c # rest)"
proof -
  note b = boundary_simps [OF assms(2)]
  let ?r = "c # rest"
  define negate where "negate = (s \<noteq> [] \<and> hd s = CHR ''^'')"
  define s0 where "s0 = (if negate then tl s else s)"
  from assms(1) obtain items where ci: "class_items s0 [] = Inr (items, s')"
    and t: "t = TAtom (In negate items)"
    by (auto simp: Let_def negate_def s0_def simp del: class_items.simps split: sum.splits)
  have n': "(s @ ?r \<noteq> [] \<and> hd (s @ ?r) = CHR ''^'') = negate"
    unfolding negate_def by (rule starts_append) (rule b)
  have "(if negate then tl (s @ ?r) else s @ ?r) = s0 @ ?r"
    by (cases s) (auto simp: negate_def s0_def)
  with class_items_append [OF ci b(6), of rest] t n' show ?thesis
    by (simp add: Let_def del: class_items.simps)
qed

lemma next_tok_append:
  assumes "next_tok s = Inr (t, s')" and "boundary c"
  shows "next_tok (s @ c # rest) = Inr (t, s' @ c # rest)"
proof (cases s)
  case Nil
  with assms show ?thesis by simp
next
  case (Cons x xs)
  note b = boundary_simps [OF assms(2)]
  show ?thesis
  proof (cases "x = CHR ''[''")
    case True
    with assms Cons next_tok_set_append [of xs t s' c rest] show ?thesis by simp
  next
    case False
    have q: "hd (xs @ c # rest) = CHR ''?'' \<longleftrightarrow> xs \<noteq> [] \<and> hd xs = CHR ''?''"
      using b by (cases xs) auto
    note ra = repeat_tok_append [OF assms(2)] repeat_tok_append [OF assms(2), of _ _ "[]", simplified]
    note pa = parse_brace_append [OF assms(2)] parse_brace_append [OF assms(2), of "[]", simplified]
    from assms(1) Cons False show ?thesis
      by (auto simp: q ra pa b simp del: class_items.simps
          split: if_splits list.splits sum.splits option.splits prod.splits)
  qed
qed

lemma parse_loop_append:
  "parse_loop s st = Inr st' \<Longrightarrow> boundary c \<Longrightarrow>
     parse_loop (s @ c # rest) st = parse_loop (c # rest) st'"
proof (induction s st rule: parse_loop.induct)
  case (1 st)
  then show ?case by simp
next
  case (2 x s st)
  from "2.prems"(1) obtain t s1 st1 where nt: "next_tok (x # s) = Inr (t, s1)"
    and stp: "step t st = Inr st1" and rest: "parse_loop s1 st1 = Inr st'"
    by (auto simp del: next_tok.simps split: sum.splits)
  from next_tok_append [OF nt "2.prems"(2), of rest]
  have nt': "next_tok (x # s @ c # rest) = Inr (t, s1 @ c # rest)" by simp
  from "2.IH" [OF nt refl stp rest "2.prems"(2)]
  have "parse_loop (s1 @ c # rest) st1 = parse_loop (c # rest) st'" .
  with nt' stp show ?case by (simp del: next_tok.simps)
qed


lemma nullable_erase: "nullable (erase r) = nullable r"
  by (induction r) auto

lemma is_repeat_erase: "is_repeat (erase r) = is_repeat r"
  by (cases r) auto

lemma erase_eq_nullable: "erase a = erase b \<Longrightarrow> nullable a = nullable b"
  by (metis nullable_erase)

lemma erase_eq_is_repeat: "erase a = erase b \<Longrightarrow> is_repeat a = is_repeat b"
  by (metis is_repeat_erase)

lemma erase_foldl_Cat:
  "erase (foldl (\<lambda>acc item. Cat item acc) a items) =
     foldl (\<lambda>acc item. Cat item acc) (erase a) (map erase items)"
  by (induction items arbitrary: a) auto

lemma erase_foldl_Alt:
  "erase (foldl (\<lambda>acc b. Alt b acc) a branches) =
     foldl (\<lambda>acc b. Alt b acc) (erase a) (map erase branches)"
  by (induction branches arbitrary: a) auto

lemma erase_seq_rx: "erase (seq_rx items) = seq_rx (map erase items)"
  by (simp add: seq_rx_def erase_foldl_Cat)

lemma erase_close_frame:
  "sim_frame f f' \<Longrightarrow> erase (close_frame f) = erase (close_frame f')"
  by (cases f, cases f') (simp add: sim_frame_def close_frame_def erase_foldl_Alt erase_seq_rx)

lemma step_sim:
  assumes "sim_state below st st'" and "step t st = Inr st1"
  shows "\<exists>st1'. step t st' = Inr st1' \<and> sim_state below st1 st1'"
proof -
  obtain g gid branches items stack where st: "st = (g, (gid, branches, items), stack)"
    by (cases st) auto
  obtain g' gid' branches' items' stack' where st': "st' = (g', (gid', branches', items'), stack')"
    by (cases st') auto
  from assms(1) st st' obtain stack2 where
    br: "map erase branches = map erase branches'" and it: "map erase items = map erase items'"
    and stk: "stack' = stack2 @ below" and all2: "list_all2 sim_frame stack stack2"
    by (auto simp: sim_state_def sim_frame_def)
  show ?thesis
  proof (cases t)
    case (TAtom a)
    with assms(2) st st' br it stk all2 show ?thesis
      by (auto simp: sim_state_def sim_frame_def)
  next
    case TOpen
    with assms(2) st st' br it stk all2 show ?thesis
      by (auto simp: sim_state_def sim_frame_def)
  next
    case TBar
    from it have "erase (seq_rx items) = erase (seq_rx items')" by (simp add: erase_seq_rx)
    with TBar assms(2) st st' br stk all2 show ?thesis
      by (auto simp: sim_state_def sim_frame_def)
  next
    case TClose
    with assms(2) st obtain f0 stack0 where s0: "stack = f0 # stack0"
      by (cases stack) auto
    with all2 obtain f0' stack0' where s2: "stack2 = f0' # stack0'"
      and sf: "sim_frame f0 f0'" and all0: "list_all2 sim_frame stack0 stack0'"
      by (auto simp: list_all2_Cons1)
    have "sim_frame (gid, branches, items) (gid', branches', items')"
      using br it by (simp add: sim_frame_def)
    from erase_close_frame [OF this]
    have "erase (close_frame (gid, branches, items)) = erase (close_frame (gid', branches', items'))" .
    with TClose assms(2) st st' stk s0 s2 sf all0 show ?thesis
      by (cases f0, cases f0') (auto simp: sim_state_def sim_frame_def)
  next
    case (TRep lo hi suffix)
    with assms(2) st obtain item items0 where i0: "items = item # items0"
      by (cases items) auto
    with it obtain item' items0' where i0': "items' = item' # items0'"
      and e: "erase item = erase item'" and e0: "map erase items0 = map erase items0'"
      by (cases items') auto
    note erase_eq_nullable [OF e] erase_eq_is_repeat [OF e]
    with TRep assms(2) st st' br stk all2 i0 i0' e e0 show ?thesis
      by (auto simp: sim_state_def sim_frame_def split: if_splits)
  qed
qed

lemma parse_loop_sim:
  "parse_loop s st = Inr st1 \<Longrightarrow> sim_state below st st' \<Longrightarrow>
     \<exists>st1'. parse_loop s st' = Inr st1' \<and> sim_state below st1 st1'"
proof (induction s st arbitrary: st' rule: parse_loop.induct)
  case (1 st)
  then show ?case by auto
next
  case (2 x s st)
  from "2.prems"(1) obtain t s1 st2 where nt: "next_tok (x # s) = Inr (t, s1)"
    and stp: "step t st = Inr st2" and rest: "parse_loop s1 st2 = Inr st1"
    by (auto simp del: next_tok.simps split: sum.splits)
  from step_sim [OF "2.prems"(2) stp] obtain st2' where
    stp': "step t st' = Inr st2'" and sim': "sim_state below st2 st2'" by blast
  from "2.IH" [OF nt refl stp rest sim'] obtain st1' where
    "parse_loop s1 st2' = Inr st1'" "sim_state below st1 st1'" by blast
  with nt stp' show ?case by (auto simp del: next_tok.simps)
qed

lemma step_groups: "step t st = Inr st' \<Longrightarrow> fst st \<le> fst st'"
  by (cases "(t, st)" rule: step.cases) (auto split: if_splits)

lemma parse_loop_groups: "parse_loop s st = Inr st' \<Longrightarrow> fst st \<le> fst st'"
proof (induction s st rule: parse_loop.induct)
  case (1 st)
  then show ?case by simp
next
  case (2 x s st)
  from "2.prems"(1) obtain t s1 st2 where nt: "next_tok (x # s) = Inr (t, s1)"
    and stp: "step t st = Inr st2" and rest: "parse_loop s1 st2 = Inr st'"
    by (auto simp del: next_tok.simps split: sum.splits)
  from "2.IH" [OF nt refl stp rest] step_groups [OF stp] show ?case by simp
qed

lemma re_compile_Inr:
  "re_compile p = Inr pat \<longleftrightarrow>
     (\<exists>groups f. parse_loop p (0, (0, [], []), []) = Inr (groups, f, []) \<and>
        pat = \<lparr>p_code = close_frame f, p_groups = groups\<rparr>)"
  by (auto simp: re_compile_def split: sum.splits if_splits)

lemma re_compile_question: "re_compile (CHR ''?'' # s) \<noteq> Inr pat"
  by (auto simp: re_compile_def repeat_tok_def split: sum.splits)

text \<open>
  When the header and the code pattern are each a pattern of the fragment, so is the
  composed pattern, and it has a group 1.
\<close>

lemma compile_composed:
  assumes "re_compile code_header = Inr ph" and "re_compile code_pattern = Inr pc"
  shows "\<exists>pat. re_compile (code_header @ ''('' @ code_pattern @ '')'') = Inr pat \<and> 1 \<le> p_groups pat"
proof -
  let ?init = "(0, (0, [], []), []) :: pstate"
  from assms(1) obtain g f where h: "parse_loop code_header ?init = Inr (g, f, [])"
    by (auto simp: re_compile_Inr)
  from assms(2) obtain g2 f2 where c: "parse_loop code_pattern ?init = Inr (g2, f2, [])"
    by (auto simp: re_compile_Inr)
  let ?st = "(Suc g, (Suc g, [], []), [f]) :: pstate"
  have b1: "boundary (CHR ''('')" and b2: "boundary (CHR '')'')" by (simp_all add: boundary_def)
  have nq: "hd (code_pattern @ '')'') \<noteq> CHR ''?''"
    using assms(2) re_compile_question by (cases code_pattern) auto
  have "parse_loop (code_header @ CHR ''('' # code_pattern @ '')'') ?init
        = parse_loop (CHR ''('' # code_pattern @ '')'') (g, f, [])"
    by (rule parse_loop_append [OF h b1])
  also have "\<dots> = parse_loop (code_pattern @ '')'') ?st"
    using nq by simp
  finally have 1: "parse_loop (code_header @ ''('' @ code_pattern @ '')'') ?init
        = parse_loop (code_pattern @ '')'') ?st" by simp
  have "sim_state [f] ?init ?st" by (simp add: sim_state_def sim_frame_def)
  from parse_loop_sim [OF c this] obtain st1 where
    p: "parse_loop code_pattern ?st = Inr st1" and s: "sim_state [f] (g2, f2, []) st1" by blast
  from s obtain g' f' where st1: "st1 = (g', f', [f])"
    by (cases st1) (auto simp: sim_state_def)
  from parse_loop_groups [OF p] st1 have g': "Suc g \<le> g'" by simp
  from parse_loop_append [OF p b2, of "[]"] st1
  have "parse_loop (code_pattern @ '')'') ?st = parse_loop '')'' (g', f', [f])" by simp
  also have "\<dots> = Inr (g', (fst f, fst (snd f), Grp (fst f') (close_frame f') # snd (snd f)), [])"
    by (cases f) simp
  finally have "re_compile (code_header @ ''('' @ code_pattern @ '')'') =
      Inr \<lparr>p_code = close_frame (fst f, fst (snd f), Grp (fst f') (close_frame f') # snd (snd f)),
           p_groups = g'\<rparr>"
    using 1 by (simp add: re_compile_def)
  with g' show ?thesis by simp
qed


section \<open>The matches that the scan reports\<close>





lemma match_at_is_match:
  assumes "match_at pat tx p adv = Some m" and "p \<le> length tx"
  shows "is_match pat tx m"
proof -
  let ?ok = "\<lambda>st'. \<not> (adv \<and> length (fst st') = length tx - p)"
  from assms(1) obtain st' rest where
    f: "filter ?ok (matches (p_code pat) (drop p tx, Map.empty)) = st' # rest"
    and m: "m = \<lparr>m_start = p, m_end = length tx - length (fst st'), m_groups = snd st',
                m_re_groups = p_groups pat\<rparr>"
    by (auto simp: match_at_def split: list.splits)
  from f have "st' \<in> set (filter ?ok (matches (p_code pat) (drop p tx, Map.empty)))"
    by simp
  then have in_m: "st' \<in> set (matches (p_code pat) (drop p tx, Map.empty))" by simp
  from matches_suffix [OF in_m] obtain pre where pre: "drop p tx = pre @ fst st'" by auto
  have "tx = take p tx @ drop p tx" by simp
  with pre have t: "tx = (take p tx @ pre) @ fst st'" by simp
  then have "length tx - length (fst st') = length (take p tx @ pre)"
    by (metis add_diff_cancel_right' length_append)
  with t have "drop (length tx - length (fst st')) tx = fst st'"
    by (metis append_eq_conv_conj)
  with in_m m show ?thesis
    by (auto simp: is_match_def)
qed

lemma scan_is_match:
  "p \<le> length tx \<Longrightarrow> m \<in> set (scan pat tx p adv) \<Longrightarrow> is_match pat tx m"
proof (induction pat tx p adv rule: scan.induct)
  case (1 pat tx p adv)
  from "1.prems"(1) have np: "\<not> length tx < p" by simp
  show ?case
  proof (cases "match_at pat tx p adv")
    case None
    with "1.prems" np have lt: "p < length tx" and "m \<in> set (scan pat tx (Suc p) False)"
      by (subst (asm) scan.simps, auto split: if_splits)+
    with "1.IH"(1) [OF np None lt] show ?thesis by simp
  next
    case (Some m0)
    note sp = match_at_span [OF Some "1.prems"(1)]
    from "1.prems"(2) np Some
    have "m = m0 \<or> m \<in> set (scan pat tx (m_end m0) (m_end m0 = m_start m0))"
      by (subst (asm) scan.simps) auto
    with "1.IH"(2) [OF np Some sp(3)] match_at_is_match [OF Some "1.prems"(1)]
    show ?thesis by auto
  qed
qed



lemma group_values_all:
  "\<forall>m \<in> set ms. 1 \<le> m_re_groups m \<Longrightarrow> group_values ms = Inr (map (\<lambda>m. m_groups m 1) ms)"
  by (induction ms) (auto simp: match_group1_def)


section \<open>Extraction\<close>




section \<open>The keys of the result\<close>

lemma page_tentative_returns:
  assumes "re_compile search_pattern = Inr pat" and "1 \<le> p_groups pat"
  shows "\<exists>tentative. page_tentative search_pattern None tx = Inr tentative"
proof -
  have "\<forall>m \<in> set (scan pat tx 0 False). 1 \<le> m_re_groups m"
    using scan_is_match [of 0 tx _ pat False] assms(2) by (auto simp: is_match_def)
  from group_values_all [OF this] assms(1) show ?thesis
    by (simp add: page_tentative_def page_tokens_def re_finditer_def)
qed

lemma search_loop_returns:
  assumes "\<And>tx. \<exists>tentative. page_tentative search_pattern substitutions tx = Inr tentative"
  shows "\<exists>st'. search_loop search_pattern valid_codes substitutions texts st = Inr st'"
proof (induction texts arbitrary: st)
  case Nil
  show ?case by simp
next
  case (Cons item texts)
  obtain page tx where item: "item = (page, tx)" by (cases item)
  from assms [of tx] obtain tentative where
    "page_tentative search_pattern substitutions tx = Inr tentative" by blast
  with Cons.IH item show ?case by (simp add: search_page_def)
qed

text \<open>
  C9. The mappings that \<open>search_codes\<close> returns (the codes found, and the tentative codes
  when \<open>show_tentative\<close> is set) have exactly the pages of the input mapping as their keys.
  The search does return when the header and the code pattern are patterns of the fragment
  and no substitution map is given.
\<close>

theorem C9_result_keys:
  "(search_codes texts valid_codes code_pattern code_header show_tentative substitutions = Inr r
      \<longrightarrow> (case r of
             Codes_found found \<Rightarrow> \<not> show_tentative \<and> dom found = fst ` set texts
           | Codes_found_and_tentative found tentative \<Rightarrow>
               show_tentative \<and> dom found = fst ` set texts \<and> dom tentative = fst ` set texts))
   \<and> (re_compile code_header = Inr ph \<and> re_compile code_pattern = Inr pc
      \<longrightarrow> (\<exists>r'. search_codes texts valid_codes code_pattern code_header show_tentative None
                  = Inr r'))"
proof (intro conjI impI)
  assume "search_codes texts valid_codes code_pattern code_header show_tentative substitutions
             = Inr r"
  then obtain st where
    loop: "search_loop (code_header @ ''('' @ code_pattern @ '')'') valid_codes substitutions texts
             \<lparr>tentative_codes = Map.empty, codes_found = Map.empty\<rparr> = Inr st"
    and r: "r = (if show_tentative
                 then Codes_found_and_tentative (codes_found st) (tentative_codes st)
                 else Codes_found (codes_found st))"
    by (auto simp: search_codes_Inr)
  from search_loop_dom [OF loop] show "case r of
             Codes_found found \<Rightarrow> \<not> show_tentative \<and> dom found = fst ` set texts
           | Codes_found_and_tentative found tentative \<Rightarrow>
               show_tentative \<and> dom found = fst ` set texts \<and> dom tentative = fst ` set texts"
    by (simp add: r)
next
  assume "re_compile code_header = Inr ph \<and> re_compile code_pattern = Inr pc"
  then obtain pat where
    c: "re_compile (code_header @ ''('' @ code_pattern @ '')'') = Inr pat" and g: "1 \<le> p_groups pat"
    using compile_composed by blast
  from search_loop_returns [of "code_header @ ''('' @ code_pattern @ '')''" None,
      OF page_tentative_returns [OF c g]]
  show "\<exists>r'. search_codes texts valid_codes code_pattern code_header show_tentative None = Inr r'"
    by (simp add: search_codes_Inr)
qed

theorem C9_result_keys_witness:
  "dom [(1::nat) \<mapsto> {Some ''00123''}] = fst ` set [(1::nat, scenario_text)]
   \<and> dom [(1::nat) \<mapsto> {Some ''O0123'', Some ''00123''}] = fst ` set [(1::nat, scenario_text)]
   \<and> (\<exists>r'. search_codes [(1::nat, scenario_text)] {''00123''} scenario_code scenario_header
               True None = Inr r')"
proof -
  have h: "re_compile scenario_header =
      Inr \<lparr>p_code = Cat (Lit CHR ''R'') (Cat (Lit CHR ''E'') (Cat (Lit CHR ''F'')
              (Cat (Lit CHR '':'') (Cat (Rep 0 None (In False [CCat Space])) Eps)))),
           p_groups = 0\<rparr>"
    by (simp add: scenario_defs search_eval)
  have c: "re_compile scenario_code =
      Inr \<lparr>p_code = Cat (Rep 5 (Some 5)
              (In False [CRange CHR ''A'' CHR ''Z'', CRange CHR ''0'' CHR ''9''])) Eps,
           p_groups = 0\<rparr>"
    by (simp add: scenario_defs search_eval)
  from C9_result_keys [of "[(1::nat, scenario_text)]" "{''00123''}" scenario_code scenario_header
      True "Some scenario_substitutions"
      "Codes_found_and_tentative [1 \<mapsto> {Some ''00123''}]
         [1 \<mapsto> {Some ''O0123'', Some ''00123''}]"] scenario_search h c
  show ?thesis by simp
qed

end
